theory Spec2Isabelle
  imports Complex_Main "HOL-Library.AList"
begin

section \<open>JavaScript values, strings and numbers\<close>

text \<open>
  The panel receives inspector events as plain data objects. An event is declared as
  \<^verbatim>\<open>interface InspectorEvent { type: string; ts?: number; [key: string]: unknown }\<close>.
  The open part of an event holds JSON data, which is modelled by the datatype below.

  Strings. A \<open>string\<close> of this theory is the UTF-8 encoding of a JavaScript string, so that
  appending and comparing strings is appending and comparing lists. What JavaScript calls the
  \<^verbatim>\<open>length\<close> of a string is its number of UTF-16 code units, which is \<open>js_length\<close> below and not
  the length of the list (the length of the list is the number of bytes).

  Numbers. A Number is a double. \<open>Finite q\<close> is the Number that the literal \<open>q\<close> denotes, the
  double nearest to the rational \<open>q\<close> (both zeros are \<open>Finite 0\<close>), and there are NaN and the two
  infinities. Every operation starts from the doubles that its arguments denote (\<open>as_double\<close>)
  and rounds its exact result to the nearest double, ties to the even mantissa.
\<close>

datatype number = Finite rat | NaN | PosInfinity | NegInfinity

datatype json =
    JNull
  | JBool bool
  | JNum number
  | JStr string
  | JArr "json list"
  | JObj "(string \<times> json) list"

datatype error = TypeError

text \<open>Code units of a string in UTF-8: every byte that is not a continuation byte starts a
  code point; a code point beyond the basic plane (lead byte \<open>0xF0\<close> and above) takes two
  code units.\<close>

definition code_units :: "char \<Rightarrow> nat" where
  "code_units c =
     (let b = (of_char c :: nat) in
      if 128 \<le> b \<and> b < 192 then 0 else if 240 \<le> b then 2 else 1)"

definition js_length :: "string \<Rightarrow> nat" where
  "js_length s = sum_list (map code_units s)"

text \<open>The size of \<^verbatim>\<open>new Blob([s])\<close>: the number of bytes of the UTF-8 encoding.\<close>

definition utf8_size :: "string \<Rightarrow> nat" where
  "utf8_size s = length s"

definition digit_char :: "nat \<Rightarrow> char" where
  "digit_char d = ''0123456789abcdef'' ! d"

text \<open>The decimal digits of a non-negative integer.\<close>

function dec :: "int \<Rightarrow> string" where
  "dec n = (if n < 10 then [digit_char (nat n)] else dec (n div 10) @ [digit_char (nat (n mod 10))])"
  by pat_completeness auto
termination
  by (relation "measure nat") auto

declare dec.simps [simp del]

text \<open>
  Rounding a rational to the nearest double. \<open>digit_count b n\<close> is the number of digits of
  \<open>n\<close> in base \<open>b\<close>, \<open>ilog b q\<close> the floor of the logarithm of a positive rational. The
  exponent of a double is at least -1022 (below that the doubles are subnormal, with the same
  spacing), and a result of magnitude \<open>2 ^ 1024\<close> or more is infinite.
\<close>

function digit_count :: "int \<Rightarrow> int \<Rightarrow> nat" where
  "digit_count b n = (if n \<le> 0 \<or> b \<le> 1 then 0 else Suc (digit_count b (n div b)))"
  by pat_completeness auto
termination
  by (relation "measure (\<lambda>(b, n). nat n)") (auto intro: int_div_less_self)

declare digit_count.simps [simp del]

definition pow :: "rat \<Rightarrow> int \<Rightarrow> rat" where
  "pow b e = (if 0 \<le> e then b ^ nat e else 1 / b ^ nat (- e))"

definition ilog :: "int \<Rightarrow> rat \<Rightarrow> int" where
  "ilog b q =
     (let (n, d) = quotient_of q;
          e = int (digit_count b n) - int (digit_count b d)
      in if pow (of_int b) e \<le> q then e else e - 1)"

definition round_half_even :: "rat \<Rightarrow> int" where
  "round_half_even x =
     (let f = \<lfloor>x\<rfloor>; d = x - of_int f in
      if d < 1 / 2 then f
      else if 1 / 2 < d then f + 1
      else if even f then f else f + 1)"

definition round_double :: "rat \<Rightarrow> number" where
  "round_double q =
     (if q = 0 then Finite 0
      else
        let a = \<bar>q\<bar>;
            e = max (ilog 2 a) (- 1022);
            u = pow 2 (e - 52);
            m = round_half_even (a / u)
        in if 1023 < e \<or> (e = 1023 \<and> 2 ^ 53 \<le> m)
             then (if q < 0 then NegInfinity else PosInfinity)
           else Finite (if q < 0 then - (of_int m * u) else of_int m * u))"

definition as_double :: "number \<Rightarrow> number" where
  "as_double x = (case x of Finite q \<Rightarrow> round_double q | other \<Rightarrow> other)"


definition number_div :: "number \<Rightarrow> rat \<Rightarrow> number" where
  "number_div x d = (case as_double x of Finite a \<Rightarrow> round_double (a / d) | other \<Rightarrow> other)"


text \<open>
  \<^verbatim>\<open>String(x)\<close> and \<^verbatim>\<open>`${x}`\<close> for a Number (\<^verbatim>\<open>Number::toString\<close>). For a positive double the
  digits are those of the integer \<open>s\<close> with the fewest digits \<open>k\<close> such that \<open>s * 10 ^ (n - k)\<close>
  rounds to the double, the nearest such value when there are two; \<open>candidates k q\<close> are the
  values with \<open>k\<close> digits next to \<open>q\<close> on either side that round to it. Seventeen digits suffice
  for every double. The digits are laid out plainly when \<open>-5 \<le> n \<le> 21\<close>, and with an exponent
  otherwise.
\<close>

definition candidates :: "nat \<Rightarrow> rat \<Rightarrow> (int \<times> int) list" where
  "candidates k q =
     (let n = ilog 10 q + 1;
          lo = \<lfloor>q / pow 10 (n - int k)\<rfloor>;
          hi = (if lo + 1 = 10 ^ k then (10 ^ (k - 1), n + 1) else (lo + 1, n))
      in filter (\<lambda>(s, n). round_double (of_int s * pow 10 (n - int k)) = Finite q) [(lo, n), hi])"

definition closest :: "nat \<Rightarrow> rat \<Rightarrow> (int \<times> int) list \<Rightarrow> int \<times> int" where
  "closest k q cs =
     (case cs of
        [c] \<Rightarrow> c
      | [(s1, n1), (s2, n2)] \<Rightarrow>
          (let d1 = \<bar>of_int s1 * pow 10 (n1 - int k) - q\<bar>;
               d2 = \<bar>of_int s2 * pow 10 (n2 - int k) - q\<bar>
           in if d1 < d2 then (s1, n1) else if d2 < d1 then (s2, n2)
              else if even s1 then (s1, n1) else (s2, n2))
      | _ \<Rightarrow> (0, 0))"

fun shortest :: "nat \<Rightarrow> nat \<Rightarrow> rat \<Rightarrow> int \<times> nat \<times> int" where
  "shortest 0 k q = (\<lfloor>q / pow 10 (ilog 10 q + 1 - int k)\<rfloor>, k, ilog 10 q + 1)"
| "shortest (Suc fuel) k q =
     (case candidates k q of
        [] \<Rightarrow> shortest fuel (Suc k) q
      | cs \<Rightarrow> (let (s, n) = closest k q cs in (s, k, n)))"

definition positive_to_string :: "rat \<Rightarrow> string" where
  "positive_to_string q =
     (let (s, k, n) = shortest 17 1 q; ds = dec s in
      if - 5 \<le> n \<and> n \<le> 21 then
        (if int k \<le> n then ds @ replicate (nat (n - int k)) CHR ''0''
         else if 0 < n then take (nat n) ds @ ''.'' @ drop (nat n) ds
         else ''0.'' @ replicate (nat (- n)) CHR ''0'' @ ds)
      else
        (let e = n - 1;
             ex = [CHR ''e'', if e < 0 then CHR ''-'' else CHR ''+''] @ dec \<bar>e\<bar>
         in if k = 1 then ds @ ex else [hd ds] @ ''.'' @ tl ds @ ex))"

definition number_to_string :: "number \<Rightarrow> string" where
  "number_to_string x =
     (case as_double x of
        NaN \<Rightarrow> ''NaN''
      | PosInfinity \<Rightarrow> ''Infinity''
      | NegInfinity \<Rightarrow> ''-Infinity''
      | Finite q \<Rightarrow>
          if q = 0 then ''0''
          else if q < 0 then ''-'' @ positive_to_string (- q)
          else positive_to_string q)"

fun join :: "string \<Rightarrow> string list \<Rightarrow> string" where
  "join sep [] = []"
| "join sep [x] = x"
| "join sep (x # y # ys) = x @ sep @ join sep (y # ys)"

text \<open>
  \<^verbatim>\<open>String(v)\<close>. A plain object is converted by \<^verbatim>\<open>Object.prototype.toString\<close>, unless it has
  an own property \<^verbatim>\<open>toString\<close>: in JSON data that property is not callable, the inherited
  \<^verbatim>\<open>valueOf\<close> (or an own one) gives no primitive, and the conversion throws a TypeError.
  An array is converted by \<^verbatim>\<open>join(",")\<close>, where \<^verbatim>\<open>null\<close> elements give the empty string.
\<close>

fun sequence :: "(error + 'a) list \<Rightarrow> error + 'a list" where
  "sequence [] = Inr []"
| "sequence (x # xs) =
     (case x of Inl e \<Rightarrow> Inl e
      | Inr v \<Rightarrow> (case sequence xs of Inl e \<Rightarrow> Inl e | Inr vs \<Rightarrow> Inr (v # vs)))"

fun js_String :: "json \<Rightarrow> error + string" where
  "js_String JNull = Inr ''null''"
| "js_String (JBool b) = Inr (if b then ''true'' else ''false'')"
| "js_String (JNum n) = Inr (number_to_string n)"
| "js_String (JStr s) = Inr s"
| "js_String (JArr xs) =
     (case sequence (map (\<lambda>x. if x = JNull then Inr [] else js_String x) xs) of
        Inl e \<Rightarrow> Inl e
      | Inr ss \<Rightarrow> Inr (join '','' ss))"
| "js_String (JObj kvs) =
     (if ''toString'' \<in> fst ` set kvs then Inl TypeError else Inr ''[object Object]'')"

text \<open>\<^verbatim>\<open>JSON.stringify\<close>: strings are quoted, with the escapes of \<^verbatim>\<open>QuoteJSONString\<close>; a Number
  that is not finite is serialized as \<^verbatim>\<open>null\<close>.\<close>

definition hex4 :: "nat \<Rightarrow> string" where
  "hex4 n = [digit_char (n div 4096 mod 16), digit_char (n div 256 mod 16),
             digit_char (n div 16 mod 16), digit_char (n mod 16)]"

definition quote_char :: "char \<Rightarrow> string" where
  "quote_char c =
     (let n = (of_char c :: nat) in
      if n = 8 then [CHR 0x5C, CHR ''b'']
      else if n = 9 then [CHR 0x5C, CHR ''t'']
      else if n = 10 then [CHR 0x5C, CHR ''n'']
      else if n = 12 then [CHR 0x5C, CHR ''f'']
      else if n = 13 then [CHR 0x5C, CHR ''r'']
      else if n = 34 then [CHR 0x5C, CHR 0x22]
      else if n = 92 then [CHR 0x5C, CHR 0x5C]
      else if n < 32 then [CHR 0x5C, CHR ''u''] @ hex4 n
      else [c])"

definition quote :: "string \<Rightarrow> string" where
  "quote s = [CHR 0x22] @ concat (map quote_char s) @ [CHR 0x22]"

fun JSON_stringify :: "json \<Rightarrow> string" where
  "JSON_stringify JNull = ''null''"
| "JSON_stringify (JBool b) = (if b then ''true'' else ''false'')"
| "JSON_stringify (JNum n) = (case as_double n of Finite q \<Rightarrow> number_to_string n | other \<Rightarrow> ''null'')"
| "JSON_stringify (JStr s) = quote s"
| "JSON_stringify (JArr xs) = ''['' @ join '','' (map JSON_stringify xs) @ '']''"
| "JSON_stringify (JObj kvs) =
     ''{'' @ join '','' (map (\<lambda>kv. quote (fst kv) @ '':'' @ JSON_stringify (snd kv)) kvs) @ ''}''"

text \<open>
  \<^verbatim>\<open>x.toFixed(f)\<close>: a Number that is not finite, or of magnitude \<open>10 ^ 21\<close> or more, is printed
  as by \<^verbatim>\<open>String\<close>. Otherwise the integer \<open>n\<close> for which \<open>n / 10 ^ f\<close> is nearest to the exact
  value of the double is taken, the larger one of two, and printed with \<open>f\<close> digits after the
  point.
\<close>

definition pad_zeros :: "nat \<Rightarrow> string \<Rightarrow> string" where
  "pad_zeros f s = replicate (f - length s) CHR ''0'' @ s"

definition toFixed :: "nat \<Rightarrow> number \<Rightarrow> string" where
  "toFixed f x =
     (case as_double x of
        Finite q \<Rightarrow>
          if 10 ^ 21 \<le> \<bar>q\<bar> then number_to_string x
          else
            (let n = \<lfloor>\<bar>q\<bar> * 10 ^ f + 1 / 2\<rfloor> in
             (if q < 0 then ''-'' else []) @ dec (n div 10 ^ f)
             @ (if f = 0 then [] else ''.'' @ pad_zeros f (dec (n mod 10 ^ f))))
      | other \<Rightarrow> number_to_string other)"

section \<open>Events and the lookup tables\<close>

text \<open>
  An event: its \<^verbatim>\<open>type\<close>, its optional \<^verbatim>\<open>ts\<close>, and its other own properties in \<open>rest\<close>
  (property names other than \<^verbatim>\<open>type\<close> and \<^verbatim>\<open>ts\<close>, each once). \<open>None\<close> is \<^verbatim>\<open>undefined\<close>.
\<close>

record InspectorEvent =
  type :: string
  ts :: "json option"
  rest :: "(string \<times> json) list"

definition get_prop :: "InspectorEvent \<Rightarrow> string \<Rightarrow> json option" where
  "get_prop e name = map_of (rest e) name"

text \<open>\<^verbatim>\<open>v ?? d\<close>\<close>

definition nullish_or :: "json option \<Rightarrow> json \<Rightarrow> json" where
  "nullish_or v d = (case v of None \<Rightarrow> d | Some JNull \<Rightarrow> d | Some x \<Rightarrow> x)"

text \<open>\<^verbatim>\<open>v != null\<close> and \<^verbatim>\<open>v !== ""\<close>\<close>

definition not_nullish :: "json option \<Rightarrow> bool" where
  "not_nullish v = (v \<noteq> None \<and> v \<noteq> Some JNull)"

definition not_empty_string :: "json option \<Rightarrow> bool" where
  "not_empty_string v = (v \<noteq> Some (JStr []))"

text \<open>
  The tables of the panel are object literals, so reading \<^verbatim>\<open>TABLE[name]\<close> finds the table's own
  entry, or else the member of that name that every object inherits from
  \<^verbatim>\<open>Object.prototype\<close>, or else \<^verbatim>\<open>undefined\<close>.
\<close>

datatype 'a member = Own 'a | Inherited string

definition Object_prototype_names :: "string list" where
  "Object_prototype_names =
     [''constructor'', ''__defineGetter__'', ''__defineSetter__'', ''hasOwnProperty'',
      ''__lookupGetter__'', ''__lookupSetter__'', ''isPrototypeOf'', ''propertyIsEnumerable'',
      ''toString'', ''valueOf'', ''__proto__'', ''toLocaleString'']"

definition table_get :: "(string \<times> 'a) list \<Rightarrow> string \<Rightarrow> 'a member option" where
  "table_get tbl name =
     (case map_of tbl name of
        Some v \<Rightarrow> Some (Own v)
      | None \<Rightarrow> if name \<in> set Object_prototype_names then Some (Inherited name) else None)"

text \<open>\<^verbatim>\<open>`${m}`\<close> for a value read from a table of strings: an inherited member is a native
  function, except \<^verbatim>\<open>__proto__\<close>, which is \<^verbatim>\<open>Object.prototype\<close> itself.\<close>

definition member_to_string :: "string member \<Rightarrow> string" where
  "member_to_string m =
     (case m of
        Own s \<Rightarrow> s
      | Inherited name \<Rightarrow>
          if name = ''__proto__'' then ''[object Object]''
          else if name = ''constructor'' then ''function Object() { [native code] }''
          else ''function '' @ name @ ''() { [native code] }'')"

section \<open>Event classifier\<close>

datatype EventCategory = AI | Tool | WebMCP | Event | System

definition CATEGORY_TYPES :: "(EventCategory \<times> string list) list" where
  "CATEGORY_TYPES =
     [(AI, [''SESSION_CREATED'', ''PROMPT_SENT'', ''PROMPT_RESPONSE'', ''PROMPT_ERROR'',
            ''STREAM_START'', ''STREAM_END'']),
      (Tool, [''TOOL_CALL'', ''TOOL_RESULT_AI'']),
      (WebMCP, [''TOOL_REGISTERED'', ''TOOL_UNREGISTERED'', ''CONTEXT_CLEARED'']),
      (Event, [''TOOL_ACTIVATED'', ''TOOL_CANCEL'']),
      (System, [''PAGE_RELOAD''])]"

text \<open>The two nested loops that fill \<^verbatim>\<open>TYPE_TO_CATEGORY\<close>, starting from \<^verbatim>\<open>{}\<close>.\<close>

definition TYPE_TO_CATEGORY :: "(string \<times> EventCategory) list" where
  "TYPE_TO_CATEGORY =
     foldl (\<lambda>tbl (cat, types). foldl (\<lambda>tbl t. AList.update t cat tbl) tbl types)
       [] CATEGORY_TYPES"

definition getCategory :: "string \<Rightarrow> EventCategory member" where
  "getCategory t = (case table_get TYPE_TO_CATEGORY t of Some c \<Rightarrow> c | None \<Rightarrow> Own System)"

record status =
  label :: string
  color :: string

definition getEventStatus :: "InspectorEvent \<Rightarrow> status" where
  "getEventStatus e =
     (if type e = ''PROMPT_ERROR'' then \<lparr>label = ''error'', color = ''#f44336''\<rparr>
      else if type e = ''PROMPT_RESPONSE'' \<or> type e = ''STREAM_END''
        then \<lparr>label = ''ok'', color = ''#4caf50''\<rparr>
      else if type e = ''TOOL_RESULT_AI'' then
        (if not_nullish (get_prop e ''error'') \<and> not_empty_string (get_prop e ''error'')
           then \<lparr>label = ''error'', color = ''#f44336''\<rparr>
         else if \<not> not_nullish (get_prop e ''result'') then \<lparr>label = ''empty'', color = ''#ff9800''\<rparr>
         else \<lparr>label = ''ok'', color = ''#4caf50''\<rparr>)
      else if type e = ''PROMPT_SENT'' \<or> type e = ''STREAM_START'' \<or> type e = ''TOOL_CALL''
        then \<lparr>label = ''sent'', color = ''#ff9800''\<rparr>
      else if type e = ''SESSION_CREATED'' then \<lparr>label = ''new'', color = ''#2196f3''\<rparr>
      else if type e = ''TOOL_REGISTERED'' then \<lparr>label = ''+'', color = ''#4caf50''\<rparr>
      else if type e = ''TOOL_UNREGISTERED''
        then \<lparr>label = [CHR 0xE2, CHR 0x88, CHR 0x92], color = ''#f44336''\<rparr>
      else if type e = ''CONTEXT_CLEARED'' then \<lparr>label = ''clear'', color = ''#ff5722''\<rparr>
      else if type e = ''PAGE_RELOAD'' then \<lparr>label = ''reload'', color = ''#607d8b''\<rparr>
      else \<lparr>label = [CHR 0xE2, CHR 0x80, CHR 0x94], color = ''#999''\<rparr>)"

definition isEventError :: "InspectorEvent \<Rightarrow> bool" where
  "isEventError e =
     (if type e = ''PROMPT_ERROR'' then True
      else if type e = ''TOOL_RESULT_AI'' \<and> not_nullish (get_prop e ''error'')
              \<and> not_empty_string (get_prop e ''error'') then True
      else False)"

section \<open>Correlation engine\<close>

record MergedEntry =
  id :: nat
  request :: InspectorEvent
  response :: "InspectorEvent option"

definition REQUEST_PAIR :: "(string \<times> string) list" where
  "REQUEST_PAIR =
     [(''PROMPT_SENT'', ''prompt''), (''STREAM_START'', ''stream''), (''TOOL_CALL'', ''tool'')]"

definition RESPONSE_PAIR :: "(string \<times> string) list" where
  "RESPONSE_PAIR =
     [(''PROMPT_RESPONSE'', ''prompt''), (''PROMPT_ERROR'', ''prompt''),
      (''STREAM_END'', ''stream''), (''TOOL_RESULT_AI'', ''tool'')]"

definition matchKey :: "InspectorEvent \<Rightarrow> string member \<Rightarrow> error + string" where
  "matchKey event pairType =
     (case js_String (nullish_or (get_prop event ''sessionId'') (JStr [])) of
        Inl err \<Rightarrow> Inl err
      | Inr sid \<Rightarrow>
          if pairType = Own ''tool'' then
            (case js_String (nullish_or (get_prop event ''tool'') (JStr [])) of
               Inl err \<Rightarrow> Inl err
             | Inr tool \<Rightarrow> Inr (''tool:'' @ sid @ '':'' @ tool))
          else Inr (member_to_string pairType @ '':'' @ sid))"

text \<open>The state of the loop of \<^verbatim>\<open>mergeEvents\<close>: the entries, the pending table
  (a \<^verbatim>\<open>Map\<close> from key to index) and the next id.\<close>

record merge_state =
  entries :: "MergedEntry list"
  pending :: "string \<rightharpoonup> nat"
  nextId :: nat

text \<open>
  The first half of the loop body: a closing event whose key is pending is attached to the
  entry at the pending index and the key is deleted (\<open>Some\<close> of the new state: the body ends
  with \<^verbatim>\<open>continue\<close>); otherwise control falls through (\<open>None\<close>). Writing
  \<^verbatim>\<open>entries[idx].response\<close> with \<open>idx\<close> out of range would throw.
\<close>

definition attach_response :: "merge_state \<Rightarrow> InspectorEvent \<Rightarrow> error + merge_state option" where
  "attach_response s event =
     (case table_get RESPONSE_PAIR (type event) of
        None \<Rightarrow> Inr None
      | Some resPair \<Rightarrow>
          (case matchKey event resPair of
             Inl err \<Rightarrow> Inl err
           | Inr key \<Rightarrow>
               (case pending s key of
                  None \<Rightarrow> Inr None
                | Some idx \<Rightarrow>
                    if idx < length (entries s) then
                      Inr (Some (s\<lparr>entries := (entries s)[idx := (entries s ! idx)\<lparr>response := Some event\<rparr>],
                                   pending := (pending s)(key := None)\<rparr>))
                    else Inl TypeError)))"

text \<open>The second half: a new entry is pushed, and an opening event is registered as pending.\<close>

definition push_request :: "merge_state \<Rightarrow> InspectorEvent \<Rightarrow> error + merge_state" where
  "push_request s event =
     (let idx = length (entries s);
          s1 = s\<lparr>entries := entries s @ [\<lparr>id = nextId s, request = event, response = None\<rparr>],
                 nextId := nextId s + 1\<rparr>
      in case table_get REQUEST_PAIR (type event) of
           None \<Rightarrow> Inr s1
         | Some reqPair \<Rightarrow>
             (case matchKey event reqPair of
                Inl err \<Rightarrow> Inl err
              | Inr key \<Rightarrow> Inr (s1\<lparr>pending := (pending s1)(key \<mapsto> idx)\<rparr>)))"

definition merge_step :: "merge_state \<Rightarrow> InspectorEvent \<Rightarrow> error + merge_state" where
  "merge_step s event =
     (case attach_response s event of
        Inl err \<Rightarrow> Inl err
      | Inr (Some s') \<Rightarrow> Inr s'
      | Inr None \<Rightarrow> push_request s event)"

fun merge_loop :: "merge_state \<Rightarrow> InspectorEvent list \<Rightarrow> error + merge_state" where
  "merge_loop s [] = Inr s"
| "merge_loop s (event # events) =
     (case merge_step s event of Inl err \<Rightarrow> Inl err | Inr s' \<Rightarrow> merge_loop s' events)"

definition init_state :: merge_state where
  "init_state = \<lparr>entries = [], pending = Map.empty, nextId = 0\<rparr>"

definition mergeEvents :: "InspectorEvent list \<Rightarrow> error + MergedEntry list" where
  "mergeEvents events =
     (case merge_loop init_state events of Inl err \<Rightarrow> Inl err | Inr s \<Rightarrow> Inr (entries s))"

section \<open>Entry projection\<close>

definition getEntryStatus :: "MergedEntry \<Rightarrow> status" where
  "getEntryStatus e =
     (case response e of
        Some r \<Rightarrow> getEventStatus r
      | None \<Rightarrow>
          if table_get REQUEST_PAIR (type (request e)) \<noteq> None
            then \<lparr>label = ''pending'', color = ''#ff9800''\<rparr>
          else getEventStatus (request e))"

definition isEntryFailed :: "MergedEntry \<Rightarrow> bool" where
  "isEntryFailed e =
     (if (case response e of Some r \<Rightarrow> isEventError r | None \<Rightarrow> False) then True
      else if isEventError (request e) then True
      else if table_get REQUEST_PAIR (type (request e)) \<noteq> None \<and> response e = None then True
      else False)"

definition jsonLen :: "InspectorEvent \<Rightarrow> nat" where
  "jsonLen ev = js_length (JSON_stringify (JObj (rest ev)))"

definition getEntrySize :: "MergedEntry \<Rightarrow> string" where
  "getEntrySize e =
     (let bytes = jsonLen (request e) + (case response e of Some r \<Rightarrow> jsonLen r | None \<Rightarrow> 0)
      in if bytes < 1024 then dec (int bytes) @ '' B''
         else toFixed 1 (number_div (Finite (of_nat bytes)) 1024) @ '' KB'')"


section \<open>Notions used to state the properties\<close>

text \<open>
  The key under which \<^verbatim>\<open>mergeEvents\<close> registers an event as pending, and the key under which it
  looks an event up as a response (\<open>None\<close> when the event is of no such kind, or when the key
  cannot be computed). An event is opening, or closing, when its type is registered in the
  corresponding pairing table.
\<close>

definition request_key :: "InspectorEvent \<Rightarrow> string option" where
  "request_key e =
     (case table_get REQUEST_PAIR (type e) of
        None \<Rightarrow> None
      | Some p \<Rightarrow> (case matchKey e p of Inl err \<Rightarrow> None | Inr k \<Rightarrow> Some k))"

definition response_key :: "InspectorEvent \<Rightarrow> string option" where
  "response_key e =
     (case table_get RESPONSE_PAIR (type e) of
        None \<Rightarrow> None
      | Some p \<Rightarrow> (case matchKey e p of Inl err \<Rightarrow> None | Inr k \<Rightarrow> Some k))"

definition is_opening :: "InspectorEvent \<Rightarrow> bool" where
  "is_opening e = (map_of REQUEST_PAIR (type e) \<noteq> None)"

definition is_closing :: "InspectorEvent \<Rightarrow> bool" where
  "is_closing e = (map_of RESPONSE_PAIR (type e) \<noteq> None)"

text \<open>An event is absorbed in a state when the loop looks it up as a response and finds its key
  pending.\<close>

definition absorbs :: "merge_state \<Rightarrow> InspectorEvent \<Rightarrow> bool" where
  "absorbs s e = (case response_key e of None \<Rightarrow> False | Some k \<Rightarrow> pending s k \<noteq> None)"

text \<open>The number of closing events of a stream that are absorbed into a pending entry, counted
  along the loop.\<close>

fun absorbed_count :: "merge_state \<Rightarrow> InspectorEvent list \<Rightarrow> nat" where
  "absorbed_count s [] = 0"
| "absorbed_count s (event # events) =
     (case merge_step s event of
        Inl err \<Rightarrow> 0
      | Inr s' \<Rightarrow>
          (if is_closing event \<and> absorbs s event then 1 else 0) + absorbed_count s' events)"

text \<open>The invariant of the loop: ids count the entries, and every pending key points to an
  entry that has no response yet and whose request was registered under that key.\<close>

definition merge_inv :: "merge_state \<Rightarrow> bool" where
  "merge_inv s =
     (nextId s = length (entries s)
      \<and> (\<forall>i < length (entries s). id (entries s ! i) = i)
      \<and> (\<forall>k idx. pending s k = Some idx \<longrightarrow>
            idx < length (entries s) \<and> response (entries s ! idx) = None
            \<and> request_key (request (entries s ! idx)) = Some k))"

text \<open>A key field that \<^verbatim>\<open>String\<close> converts without throwing.\<close>

definition stringable :: "json option \<Rightarrow> bool" where
  "stringable v = (case js_String (nullish_or v (JStr [])) of Inl err \<Rightarrow> False | Inr str \<Rightarrow> True)"





text \<open>A field that is present (neither absent nor null) and is not the empty string.\<close>

definition present_and_non_empty :: "json option \<Rightarrow> bool" where
  "present_and_non_empty v =
     (case v of None \<Rightarrow> False | Some JNull \<Rightarrow> False | Some (JStr s) \<Rightarrow> s \<noteq> [] | Some x \<Rightarrow> True)"

text \<open>Sample events, entries and a sample state of the loop.\<close>

definition sample_sent :: InspectorEvent where
  "sample_sent = \<lparr>type = ''PROMPT_SENT'', ts = Some (JNum (Finite 100)),
     rest = [(''sessionId'', JStr ''a''), (''input'', JStr ''hi'')]\<rparr>"

definition sample_response :: InspectorEvent where
  "sample_response = \<lparr>type = ''PROMPT_RESPONSE'', ts = Some (JNum (Finite 150)),
     rest = [(''sessionId'', JStr ''a''), (''result'', JStr ''hello'')]\<rparr>"

definition sample_reload :: InspectorEvent where
  "sample_reload = \<lparr>type = ''PAGE_RELOAD'', ts = None, rest = []\<rparr>"

definition sample_call :: InspectorEvent where
  "sample_call = \<lparr>type = ''TOOL_CALL'', ts = Some (JNum (Finite 100)),
     rest = [(''sessionId'', JStr ''a''), (''tool'', JStr ''search'')]\<rparr>"

definition sample_result :: InspectorEvent where
  "sample_result = \<lparr>type = ''TOOL_RESULT_AI'', ts = Some (JNum (Finite 1355)),
     rest = [(''sessionId'', JStr ''a''), (''tool'', JStr ''search''), (''result'', JStr ''ok'')]\<rparr>"

definition sample_sent2 :: InspectorEvent where
  "sample_sent2 = \<lparr>type = ''PROMPT_SENT'', ts = Some (JNum (Finite 120)),
     rest = [(''sessionId'', JStr ''a''), (''input'', JStr ''again'')]\<rparr>"

definition sample_start1 :: InspectorEvent where
  "sample_start1 = \<lparr>type = ''STREAM_START'', ts = Some (JNum (Finite 1)), rest = [(''sessionId'', JNum (Finite 7))]\<rparr>"

definition sample_start2 :: InspectorEvent where
  "sample_start2 = \<lparr>type = ''STREAM_START'', ts = Some (JNum (Finite 2)), rest = [(''sessionId'', JNum (Finite 7))]\<rparr>"

definition sample_end1 :: InspectorEvent where
  "sample_end1 = \<lparr>type = ''STREAM_END'', ts = Some (JNum (Finite 3)), rest = [(''sessionId'', JNum (Finite 7))]\<rparr>"

definition sample_end2 :: InspectorEvent where
  "sample_end2 = \<lparr>type = ''STREAM_END'', ts = Some (JNum (Finite 4)), rest = [(''sessionId'', JNum (Finite 7))]\<rparr>"

definition sample_merged :: "MergedEntry list" where
  "sample_merged =
     [\<lparr>id = 0, request = sample_reload, response = None\<rparr>,
      \<lparr>id = 1, request = sample_sent, response = Some sample_response\<rparr>,
      \<lparr>id = 2, request = sample_call, response = Some sample_result\<rparr>]"

definition sample_pending :: "MergedEntry list" where
  "sample_pending =
     [\<lparr>id = 0, request = sample_reload, response = None\<rparr>,
      \<lparr>id = 1, request = sample_call, response = None\<rparr>,
      \<lparr>id = 2, request = sample_sent, response = Some sample_response\<rparr>]"

definition sample_state :: merge_state where
  "sample_state =
     \<lparr>entries = [\<lparr>id = 0, request = sample_start1, response = None\<rparr>],
      pending = [''stream:7'' \<mapsto> 0],
      nextId = 1\<rparr>"

definition sample_anon_call :: InspectorEvent where
  "sample_anon_call = \<lparr>type = ''TOOL_CALL'', ts = None, rest = [(''tool'', JStr ''search'')]\<rparr>"

definition sample_anon_result :: InspectorEvent where
  "sample_anon_result = \<lparr>type = ''TOOL_RESULT_AI'', ts = None,
     rest = [(''sessionId'', JNull), (''tool'', JStr ''search''), (''result'', JNum (Finite 3))]\<rparr>"

definition sample_bare_sent :: InspectorEvent where
  "sample_bare_sent = \<lparr>type = ''PROMPT_SENT'', ts = None, rest = []\<rparr>"

definition sample_bare_error :: InspectorEvent where
  "sample_bare_error = \<lparr>type = ''PROMPT_ERROR'', ts = None, rest = [(''error'', JStr ''quota'')]\<rparr>"

definition sample_accent :: InspectorEvent where
  "sample_accent = \<lparr>type = ''PROMPT_SENT'', ts = None,
     rest = [(''input'', JStr [CHR 0xC3, CHR 0xA9])]\<rparr>"


definition sample_constructor :: InspectorEvent where
  "sample_constructor = \<lparr>type = ''constructor'', ts = None, rest = []\<rparr>"

definition sample_odd_call :: InspectorEvent where
  "sample_odd_call = \<lparr>type = ''TOOL_CALL'', ts = None,
     rest = [(''tool'', JObj [(''toString'', JNum (Finite 1))])]\<rparr>"

definition sample_odd_result :: InspectorEvent where
  "sample_odd_result = \<lparr>type = ''TOOL_RESULT_AI'', ts = None,
     rest = [(''tool'', JObj [(''toString'', JNum (Finite 1))])]\<rparr>"


section \<open>The loop of the correlation engine\<close>

lemmas merge_defs = mergeEvents_def init_state_def merge_step_def attach_response_def
  push_request_def table_get_def matchKey_def REQUEST_PAIR_def RESPONSE_PAIR_def
  Object_prototype_names_def get_prop_def nullish_or_def member_to_string_def
  sample_sent_def sample_response_def sample_reload_def sample_call_def sample_result_def

lemmas sample_defs2 = sample_sent2_def sample_start1_def sample_start2_def sample_end1_def
  sample_end2_def

lemmas key_defs = request_key_def response_key_def is_opening_def is_closing_def

text \<open>One turn of the loop either attaches the event to a pending entry or pushes a new entry.
  The invariant is kept by every turn, so it holds of every state that the loop reaches.\<close>

lemma merge_step_cases:
  assumes "merge_step s e = Inr s'"
  obtains (attach) k idx where "response_key e = Some k" "pending s k = Some idx"
      "idx < length (entries s)"
      "s' = s\<lparr>entries := (entries s)[idx := (entries s ! idx)\<lparr>response := Some e\<rparr>],
              pending := (pending s)(k := None)\<rparr>"
  | (push) "\<not> absorbs s e"
      "entries s' = entries s @ [\<lparr>id = nextId s, request = e, response = None\<rparr>]"
      "nextId s' = Suc (nextId s)"
      "pending s' = (case request_key e of None \<Rightarrow> pending s
                     | Some k \<Rightarrow> (pending s)(k \<mapsto> length (entries s)))"
  using assms
  unfolding merge_step_def attach_response_def push_request_def absorbs_def
    request_key_def response_key_def Let_def
  by (auto split: option.splits sum.splits if_splits)

lemma merge_inv_pending:
  assumes "merge_inv s" "pending s k = Some idx"
  shows "idx < length (entries s)" "response (entries s ! idx) = None"
    "request_key (request (entries s ! idx)) = Some k"
  using assms unfolding merge_inv_def by blast+

lemma merge_inv_pending_inj:
  assumes "merge_inv s" "pending s k = Some idx" "pending s k' = Some idx"
  shows "k' = k"
  using merge_inv_pending(3)[OF assms(1,2)] merge_inv_pending(3)[OF assms(1,3)] by simp

lemma merge_inv_unreferenced:
  assumes "merge_inv s" "idx < length (entries s)" "response (entries s ! idx) \<noteq> None"
  shows "\<forall>k. pending s k \<noteq> Some idx"
proof (intro allI notI)
  fix k assume "pending s k = Some idx"
  from merge_inv_pending(2)[OF assms(1) this] assms(3) show False by simp
qed

lemma merge_step_inv:
  assumes "merge_step s e = Inr s'" "merge_inv s"
  shows "merge_inv s'"
  using assms(1)
proof (cases rule: merge_step_cases)
  case (attach k idx)
  have len: "length (entries s') = length (entries s)" and nid: "nextId s' = nextId s"
    using attach(4) by simp_all
  have ids: "\<forall>i < length (entries s'). id (entries s' ! i) = i"
    using assms(2) attach(3,4) unfolding merge_inv_def by (auto simp: nth_list_update)
  have pend: "idx' < length (entries s') \<and> response (entries s' ! idx') = None
      \<and> request_key (request (entries s' ! idx')) = Some k'"
    if p: "pending s' k' = Some idx'" for k' idx'
  proof -
    from p attach(4) have ne: "k' \<noteq> k" and old: "pending s k' = Some idx'"
      by (auto split: if_splits)
    have "idx' \<noteq> idx"
      using merge_inv_pending_inj[OF assms(2) attach(2)] old ne by blast
    with merge_inv_pending[OF assms(2) old] attach(4) show ?thesis by simp
  qed
  show ?thesis
    unfolding merge_inv_def using len nid ids pend assms(2)
    by (simp add: merge_inv_def)
next
  case push
  have ids: "\<forall>i < length (entries s'). id (entries s' ! i) = i"
    using assms(2) push(2) unfolding merge_inv_def by (auto simp: nth_append)
  have pend: "idx' < length (entries s') \<and> response (entries s' ! idx') = None
      \<and> request_key (request (entries s' ! idx')) = Some k'"
    if p: "pending s' k' = Some idx'" for k' idx'
  proof (cases "pending s k' = Some idx'")
    case True
    with merge_inv_pending[OF assms(2) True] push(2) show ?thesis
      by (simp add: nth_append)
  next
    case False
    with p push(4) have "request_key e = Some k'" "idx' = length (entries s)"
      by (auto split: option.splits if_splits)
    with push(2) show ?thesis by simp
  qed
  show ?thesis
    unfolding merge_inv_def using ids pend push(2,3) assms(2)
    by (simp add: merge_inv_def)
qed

lemma init_state_inv: "merge_inv init_state"
  by (simp add: merge_inv_def init_state_def)

lemma merge_loop_inv:
  "merge_loop s evs = Inr t \<Longrightarrow> merge_inv s \<Longrightarrow> merge_inv t"
proof (induction evs arbitrary: s)
  case Nil
  then show ?case by simp
next
  case (Cons e evs)
  then show ?case
    by (auto split: sum.splits dest: merge_step_inv)
qed

lemma merge_loop_append:
  "merge_loop s (xs @ ys) =
     (case merge_loop s xs of Inl err \<Rightarrow> Inl err | Inr s' \<Rightarrow> merge_loop s' ys)"
  by (induction xs arbitrary: s) (auto split: sum.splits)

lemma merge_loop_appendE:
  assumes "merge_loop s (xs @ ys) = Inr t"
  obtains s' where "merge_loop s xs = Inr s'" "merge_loop s' ys = Inr t"
  using assms by (auto simp: merge_loop_append split: sum.splits)

lemma merge_loop_single: "merge_loop s [e] = merge_step s e"
  by (simp split: sum.splits)

lemma mergeEvents_loop:
  assumes "mergeEvents events = Inr es"
  obtains t where "merge_loop init_state events = Inr t" "es = entries t" "merge_inv t"
  using assms merge_loop_inv[OF _ init_state_inv]
  by (auto simp: mergeEvents_def split: sum.splits)

lemma merge_step_length:
  assumes "merge_step s e = Inr s'"
  shows "length (entries s') + (if absorbs s e then 1 else 0) = Suc (length (entries s))"
  using assms
proof (cases rule: merge_step_cases)
  case (attach k idx)
  then show ?thesis by (simp add: absorbs_def)
next
  case push
  then show ?thesis by simp
qed

text \<open>An absorbed event whose type is not the name of an inherited member is a closing event.\<close>

lemma absorbs_closing:
  assumes "absorbs s e" "type e \<notin> set Object_prototype_names"
  shows "is_closing e"
  using assms
  by (auto simp: absorbs_def response_key_def table_get_def is_closing_def
      split: option.splits if_splits)

lemma merge_loop_length:
  "merge_loop s evs = Inr t \<Longrightarrow> \<forall>e \<in> set evs. type e \<notin> set Object_prototype_names \<Longrightarrow>
     length (entries t) + absorbed_count s evs = length (entries s) + length evs"
proof (induction evs arbitrary: s)
  case Nil
  then show ?case by simp
next
  case (Cons e evs)
  from Cons.prems(1) obtain s' where st: "merge_step s e = Inr s'" and lp: "merge_loop s' evs = Inr t"
    by (auto split: sum.splits)
  have "absorbs s e \<Longrightarrow> is_closing e"
    using absorbs_closing Cons.prems(2) by simp
  with Cons.IH[OF lp] Cons.prems(2) merge_step_length[OF st] st show ?case
    by (auto split: if_splits)
qed

lemma merge_loop_length_le:
  "merge_loop s evs = Inr t \<Longrightarrow> length (entries t) \<le> length (entries s) + length evs"
proof (induction evs arbitrary: s)
  case Nil
  then show ?case by simp
next
  case (Cons e evs)
  from Cons.prems(1) obtain s' where st: "merge_step s e = Inr s'" and lp: "merge_loop s' evs = Inr t"
    by (auto split: sum.splits)
  from Cons.IH[OF lp] merge_step_length[OF st] show ?case
    by (simp split: if_splits)
qed





text \<open>An entry that no pending key points to is never touched again.\<close>

lemma merge_step_frame:
  assumes "merge_step s e = Inr s'" "idx < length (entries s)" "\<forall>k. pending s k \<noteq> Some idx"
  shows "entries s' ! idx = entries s ! idx \<and> idx < length (entries s')
     \<and> (\<forall>k. pending s' k \<noteq> Some idx)"
  using assms(1)
proof (cases rule: merge_step_cases)
  case (attach k idx')
  have "idx' \<noteq> idx" using assms(3) attach(2) by auto
  with attach assms(2,3) show ?thesis by simp
next
  case push
  with assms(2,3) show ?thesis by (auto simp: nth_append split: option.splits)
qed

lemma merge_loop_frame:
  "merge_loop s evs = Inr t \<Longrightarrow> idx < length (entries s) \<Longrightarrow> \<forall>k. pending s k \<noteq> Some idx \<Longrightarrow>
     entries t ! idx = entries s ! idx \<and> idx < length (entries t)"
proof (induction evs arbitrary: s)
  case Nil
  then show ?case by simp
next
  case (Cons e evs)
  from Cons.prems(1) obtain s' where st: "merge_step s e = Inr s'" and lp: "merge_loop s' evs = Inr t"
    by (auto split: sum.splits)
  from merge_step_frame[OF st Cons.prems(2,3)] Cons.IH[OF lp] show ?case by simp
qed

text \<open>An entry without response keeps being so while no event is looked up under its key.\<close>

lemma merge_step_unanswered:
  assumes "merge_step s e = Inr s'" "merge_inv s" "idx < length (entries s)"
    "response (entries s ! idx) = None" "request_key (request (entries s ! idx)) = Some k"
    "response_key e \<noteq> Some k"
  shows "entries s' ! idx = entries s ! idx \<and> idx < length (entries s')"
  using assms(1)
proof (cases rule: merge_step_cases)
  case (attach k' idx')
  have "idx' \<noteq> idx"
    using merge_inv_pending(3)[OF assms(2) attach(2)] assms(5,6) attach(1) by auto
  with attach assms(3) show ?thesis by simp
next
  case push
  with assms(3) show ?thesis by (simp add: nth_append)
qed

lemma merge_loop_unanswered:
  "merge_loop s evs = Inr t \<Longrightarrow> merge_inv s \<Longrightarrow> idx < length (entries s) \<Longrightarrow>
   response (entries s ! idx) = None \<Longrightarrow> request_key (request (entries s ! idx)) = Some k \<Longrightarrow>
   \<forall>e \<in> set evs. response_key e \<noteq> Some k \<Longrightarrow>
     entries t ! idx = entries s ! idx \<and> idx < length (entries t)"
proof (induction evs arbitrary: s)
  case Nil
  then show ?case by simp
next
  case (Cons e evs)
  from Cons.prems(1) obtain s' where st: "merge_step s e = Inr s'" and lp: "merge_loop s' evs = Inr t"
    by (auto split: sum.splits)
  have a: "entries s' ! idx = entries s ! idx \<and> idx < length (entries s')"
    using merge_step_unanswered[OF st Cons.prems(2,3,4,5)] Cons.prems(6) by simp
  have "entries t ! idx = entries s' ! idx \<and> idx < length (entries t)"
    using Cons.IH[OF lp merge_step_inv[OF st Cons.prems(2)]] a Cons.prems(4,5,6) by simp
  with a show ?case by simp
qed

text \<open>A pending key stays pending, at the same index, while no event carries that key.\<close>

lemma merge_step_still_pending:
  assumes "merge_step s e = Inr s'" "pending s k = Some idx"
    "response_key e \<noteq> Some k" "request_key e \<noteq> Some k"
  shows "pending s' k = Some idx"
  using assms(1)
proof (cases rule: merge_step_cases)
  case (attach k' idx')
  with assms(2,3) show ?thesis by auto
next
  case push
  with assms(2,4) show ?thesis by (auto split: option.splits)
qed

lemma merge_loop_still_pending:
  "merge_loop s evs = Inr t \<Longrightarrow> pending s k = Some idx \<Longrightarrow>
   \<forall>e \<in> set evs. response_key e \<noteq> Some k \<and> request_key e \<noteq> Some k \<Longrightarrow>
     pending t k = Some idx"
proof (induction evs arbitrary: s)
  case Nil
  then show ?case by simp
next
  case (Cons e evs)
  from Cons.prems(1) obtain s' where st: "merge_step s e = Inr s'" and lp: "merge_loop s' evs = Inr t"
    by (auto split: sum.splits)
  from merge_step_still_pending[OF st Cons.prems(2)] Cons.prems(3) Cons.IH[OF lp] show ?case
    by simp
qed

text \<open>What an opening event does, and what a closing event with a pending key does.\<close>

lemma opening_not_looked_up: "is_opening e \<Longrightarrow> response_key e = None"
  by (auto simp: is_opening_def response_key_def table_get_def REQUEST_PAIR_def RESPONSE_PAIR_def
      Object_prototype_names_def split: if_splits)

lemma merge_step_opening:
  assumes "merge_step s e = Inr s'" "is_opening e"
  shows "entries s' = entries s @ [\<lparr>id = nextId s, request = e, response = None\<rparr>]
     \<and> (\<exists>k. request_key e = Some k \<and> pending s' = (pending s)(k \<mapsto> length (entries s)))"
  using assms(1)
proof (cases rule: merge_step_cases)
  case (attach k idx)
  with opening_not_looked_up[OF assms(2)] show ?thesis by simp
next
  case push
  have "table_get REQUEST_PAIR (type e) \<noteq> None"
    using assms(2) by (auto simp: is_opening_def table_get_def)
  with assms(1) push(1) have "request_key e \<noteq> None"
    unfolding merge_step_def attach_response_def push_request_def absorbs_def
      request_key_def response_key_def Let_def
    by (auto split: option.splits sum.splits if_splits)
  with push show ?thesis by auto
qed

lemma merge_step_closing:
  assumes "merge_step s e = Inr s'" "response_key e = Some k" "pending s k = Some idx"
  shows "s' = s\<lparr>entries := (entries s)[idx := (entries s ! idx)\<lparr>response := Some e\<rparr>],
              pending := (pending s)(k := None)\<rparr> \<and> idx < length (entries s)"
  using assms(1)
proof (cases rule: merge_step_cases)
  case (attach k' idx')
  with assms(2,3) show ?thesis by simp
next
  case push
  with assms(2,3) show ?thesis by (simp add: absorbs_def)
qed

lemma merge_step_opening_total:
  assumes "is_opening e" "request_key e = Some k"
  shows "merge_step s e =
     Inr (s\<lparr>entries := entries s @ [\<lparr>id = nextId s, request = e, response = None\<rparr>],
            nextId := nextId s + 1,
            pending := (pending s)(k \<mapsto> length (entries s))\<rparr>)"
proof -
  from assms(1) obtain p where p: "map_of REQUEST_PAIR (type e) = Some p"
    by (auto simp: is_opening_def)
  then have req: "table_get REQUEST_PAIR (type e) = Some (Own p)"
    by (simp add: table_get_def)
  from p have res: "table_get RESPONSE_PAIR (type e) = None"
    by (auto simp: table_get_def REQUEST_PAIR_def RESPONSE_PAIR_def Object_prototype_names_def
        split: if_splits)
  from assms(2) req have key: "matchKey e (Own p) = Inr k"
    by (simp add: request_key_def split: sum.splits)
  show ?thesis
    by (simp add: merge_step_def attach_response_def push_request_def res req key Let_def)
qed

lemma merge_step_closing_total:
  assumes "response_key e = Some k" "pending s k = Some idx" "idx < length (entries s)"
  shows "merge_step s e =
     Inr (s\<lparr>entries := (entries s)[idx := (entries s ! idx)\<lparr>response := Some e\<rparr>],
            pending := (pending s)(k := None)\<rparr>)"
  using assms
  by (auto simp: merge_step_def attach_response_def response_key_def
      split: option.splits sum.splits)

lemma pair_core:
  assumes run: "merge_loop init_state (pre @ [opening] @ mid @ [closing] @ post) = Inr t"
    and op: "is_opening opening" "request_key opening = Some k"
    and cl: "response_key closing = Some k"
    and mid: "\<forall>e \<in> set mid. response_key e \<noteq> Some k \<and> request_key e \<noteq> Some k"
  obtains s where "merge_loop init_state pre = Inr s"
    "length (entries s) < length (entries t)"
    "request (entries t ! length (entries s)) = opening"
    "response (entries t ! length (entries s)) = Some closing"
proof -
  from run obtain s0 where s0: "merge_loop init_state pre = Inr s0"
    and r1: "merge_loop s0 ([opening] @ mid @ [closing] @ post) = Inr t"
    by (rule merge_loop_appendE)
  from r1 obtain s1 where s1: "merge_loop s0 [opening] = Inr s1"
    and r2: "merge_loop s1 (mid @ [closing] @ post) = Inr t"
    by (rule merge_loop_appendE)
  from r2 obtain s2 where s2: "merge_loop s1 mid = Inr s2"
    and r3: "merge_loop s2 ([closing] @ post) = Inr t"
    by (rule merge_loop_appendE)
  from r3 obtain s3 where s3: "merge_loop s2 [closing] = Inr s3"
    and r4: "merge_loop s3 post = Inr t"
    by (rule merge_loop_appendE)
  let ?n = "length (entries s0)"
  have i0: "merge_inv s0" using merge_loop_inv[OF s0 init_state_inv] .
  have i1: "merge_inv s1" using merge_loop_inv[OF s1 i0] .
  have i2: "merge_inv s2" using merge_loop_inv[OF s2 i1] .
  have i3: "merge_inv s3" using merge_loop_inv[OF s3 i2] .
  have st1: "merge_step s0 opening = Inr s1" using s1 by (auto split: sum.splits)
  have st3: "merge_step s2 closing = Inr s3" using s3 by (auto split: sum.splits)
  from merge_step_opening[OF st1 op(1)] op(2)
  have e1: "entries s1 = entries s0 @ [\<lparr>id = nextId s0, request = opening, response = None\<rparr>]"
    and p1: "pending s1 k = Some ?n"
    by auto
  have n1: "?n < length (entries s1)" "response (entries s1 ! ?n) = None"
    "request_key (request (entries s1 ! ?n)) = Some k" "request (entries s1 ! ?n) = opening"
    using e1 op(2) by simp_all
  have p2: "pending s2 k = Some ?n"
    using merge_loop_still_pending[OF s2 p1 mid] .
  have e2: "entries s2 ! ?n = entries s1 ! ?n" "?n < length (entries s2)"
    using merge_loop_unanswered[OF s2 i1 n1(1,2,3)] mid by simp_all
  from merge_step_closing[OF st3 cl p2]
  have e3: "entries s3 = (entries s2)[?n := (entries s2 ! ?n)\<lparr>response := Some closing\<rparr>]"
    by simp
  have n3: "?n < length (entries s3)" "response (entries s3 ! ?n) = Some closing"
    "request (entries s3 ! ?n) = opening"
    using e3 e2 n1 by simp_all
  have "\<forall>k. pending s3 k \<noteq> Some ?n"
    using merge_inv_unreferenced[OF i3 n3(1)] n3(2) by simp
  from merge_loop_frame[OF r4 n3(1) this] n3
  have "?n < length (entries t)" "request (entries t ! ?n) = opening"
    "response (entries t ! ?n) = Some closing"
    by simp_all
  with s0 show ?thesis by (rule that)
qed

lemma unanswered_core:
  assumes run: "merge_loop init_state (pre @ [opening] @ post) = Inr t"
    and op: "is_opening opening"
    and post: "\<forall>e \<in> set post. response_key e \<noteq> request_key opening"
  obtains s where "merge_loop init_state pre = Inr s"
    "length (entries s) < length (entries t)"
    "request (entries t ! length (entries s)) = opening"
    "response (entries t ! length (entries s)) = None"
proof -
  from run obtain s0 where s0: "merge_loop init_state pre = Inr s0"
    and r1: "merge_loop s0 ([opening] @ post) = Inr t"
    by (rule merge_loop_appendE)
  from r1 obtain s1 where s1: "merge_loop s0 [opening] = Inr s1"
    and r2: "merge_loop s1 post = Inr t"
    by (rule merge_loop_appendE)
  let ?n = "length (entries s0)"
  have i0: "merge_inv s0" using merge_loop_inv[OF s0 init_state_inv] .
  have i1: "merge_inv s1" using merge_loop_inv[OF s1 i0] .
  have st1: "merge_step s0 opening = Inr s1" using s1 by (auto split: sum.splits)
  from merge_step_opening[OF st1 op] obtain k
    where e1: "entries s1 = entries s0 @ [\<lparr>id = nextId s0, request = opening, response = None\<rparr>]"
    and k: "request_key opening = Some k"
    by auto
  have n1: "?n < length (entries s1)" "response (entries s1 ! ?n) = None"
    "request_key (request (entries s1 ! ?n)) = Some k" "request (entries s1 ! ?n) = opening"
    using e1 k by simp_all
  have "\<forall>e \<in> set post. response_key e \<noteq> Some k" using post k by simp
  from merge_loop_unanswered[OF r2 i1 n1(1,2,3) this] n1
  have "?n < length (entries t)" "request (entries t ! ?n) = opening"
    "response (entries t ! ?n) = None"
    by simp_all
  with s0 show ?thesis by (rule that)
qed

lemma stringable_nullish: "\<not> not_nullish v \<Longrightarrow> stringable v"
  by (auto simp: not_nullish_def stringable_def nullish_or_def)

lemma stringable_Inr: "stringable v \<Longrightarrow> \<exists>str. js_String (nullish_or v (JStr [])) = Inr str"
  by (auto simp: stringable_def split: sum.splits)

lemma matchKey_total:
  assumes "stringable (get_prop e ''sessionId'')" "stringable (get_prop e ''tool'')"
  shows "\<exists>k. matchKey e p = Inr k"
  using stringable_Inr[OF assms(1)] stringable_Inr[OF assms(2)] by (auto simp: matchKey_def)

lemma merge_step_total:
  assumes "merge_inv s" "stringable (get_prop e ''sessionId'')" "stringable (get_prop e ''tool'')"
  shows "\<exists>s'. merge_step s e = Inr s'"
proof -
  have key: "\<exists>k. matchKey e p = Inr k" for p
    using matchKey_total[OF assms(2,3)] .
  have push: "\<exists>s'. push_request s e = Inr s'"
  proof (cases "table_get REQUEST_PAIR (type e)")
    case None
    then show ?thesis by (simp add: push_request_def Let_def)
  next
    case (Some p)
    with key[of p] show ?thesis by (auto simp: push_request_def Let_def)
  qed
  show ?thesis
  proof (cases "table_get RESPONSE_PAIR (type e)")
    case None
    with push show ?thesis by (simp add: merge_step_def attach_response_def)
  next
    case (Some p)
    from key[of p] obtain k where k: "matchKey e p = Inr k" ..
    show ?thesis
    proof (cases "pending s k")
      case None
      with Some k push show ?thesis by (simp add: merge_step_def attach_response_def)
    next
      case (Some idx)
      with merge_inv_pending(1)[OF assms(1) Some] \<open>table_get RESPONSE_PAIR (type e) = Some p\<close> k
      show ?thesis by (simp add: merge_step_def attach_response_def)
    qed
  qed
qed

lemma merge_loop_total:
  "merge_inv s \<Longrightarrow>
   \<forall>e \<in> set evs. stringable (get_prop e ''sessionId'') \<and> stringable (get_prop e ''tool'') \<Longrightarrow>
     \<exists>t. merge_loop s evs = Inr t"
proof (induction evs arbitrary: s)
  case Nil
  then show ?case by simp
next
  case (Cons e evs)
  from merge_step_total[OF Cons.prems(1)] Cons.prems(2)
  obtain s' where st: "merge_step s e = Inr s'" by auto
  from Cons.IH[OF merge_step_inv[OF st Cons.prems(1)]] Cons.prems(2) st
  show ?case by simp
qed

lemma mergeEvents_total:
  assumes "\<forall>e \<in> set events. stringable (get_prop e ''sessionId'') \<and> stringable (get_prop e ''tool'')"
  shows "\<exists>es. mergeEvents events = Inr es"
  using merge_loop_total[OF init_state_inv assms] by (auto simp: mergeEvents_def)

lemma matchKey_missing_session:
  assumes "\<not> not_nullish (get_prop e ''sessionId'')"
  shows "matchKey e p =
     (if p = Own ''tool'' then
        (case js_String (nullish_or (get_prop e ''tool'') (JStr [])) of
           Inl err \<Rightarrow> Inl err | Inr tool \<Rightarrow> Inr (''tool::'' @ tool))
      else Inr (member_to_string p @ '':''))"
  using assms by (auto simp: matchKey_def not_nullish_def nullish_or_def split: sum.splits)

section \<open>Numbers and strings as printed\<close>
















lemma js_length_ascii:
  assumes "\<forall>c \<in> set s. (of_char c :: nat) < 128"
  shows "js_length s = utf8_size s"
  using assms by (induction s) (simp_all add: js_length_def utf8_size_def code_units_def)

lemma number_to_string_7: "number_to_string (Finite 7) = ''7''"
  by code_simp

section \<open>Properties of the event classifier\<close>

text \<open>
  Claim C7. \<^verbatim>\<open>isEventError\<close> is true exactly when the type of the event is \<^verbatim>\<open>PROMPT_ERROR\<close>, or the
  type is \<^verbatim>\<open>TOOL_RESULT_AI\<close> and the \<^verbatim>\<open>error\<close> field is present (neither absent nor null) and is
  not the empty string.
\<close>

theorem isEventError_iff:
  "isEventError e =
     (type e = ''PROMPT_ERROR''
      \<or> (type e = ''TOOL_RESULT_AI'' \<and> present_and_non_empty (get_prop e ''error'')))"
proof -
  have "(not_nullish v \<and> not_empty_string v) = present_and_non_empty v" for v
    by (auto simp: not_nullish_def not_empty_string_def present_and_non_empty_def
        split: option.splits json.splits)
  then show ?thesis by (simp add: isEventError_def)
qed

lemma getCategory_known:
  "map (\<lambda>(cat, types). map getCategory types) CATEGORY_TYPES =
     map (\<lambda>(cat, types). map (\<lambda>t. Own cat) types) CATEGORY_TYPES"
  by (simp add: CATEGORY_TYPES_def getCategory_def table_get_def TYPE_TO_CATEGORY_def)

lemma getCategory_unknown:
  assumes "t \<notin> set (concat (map snd CATEGORY_TYPES))" "t \<notin> set Object_prototype_names"
  shows "getCategory t = Own System"
  using assms
  by (simp add: CATEGORY_TYPES_def getCategory_def table_get_def TYPE_TO_CATEGORY_def)

text \<open>
  Claim C8. \<^verbatim>\<open>getCategory\<close> gives every known type its category and gives \<^verbatim>\<open>System\<close> to every
  other type that is not the name of a member of \<^verbatim>\<open>Object.prototype\<close> (the two lemmas above).
  For such a name the lookup in the object literal finds the inherited member, which is not
  nullish, so the default does not apply: for the type \<^verbatim>\<open>constructor\<close>, which is in no
  category list, the result is not \<^verbatim>\<open>System\<close> and is no category at all.
\<close>

theorem getCategory_inherited:
  "getCategory ''constructor'' = Inherited ''constructor''
   \<and> ''constructor'' \<notin> set (concat (map snd CATEGORY_TYPES))
   \<and> getCategory ''constructor'' \<noteq> Own System"
  by (simp add: CATEGORY_TYPES_def getCategory_def table_get_def TYPE_TO_CATEGORY_def
      Object_prototype_names_def)

section \<open>Properties of the correlation engine\<close>

text \<open>
  Claim C1, as amended. If an opening event is followed later in the stream by a closing
  event with the same correlation key, and no event between them is looked up or registered
  under that key (no closing event, and no further opening event, with the same key), then the
  entry created for the opening event ends the merge with that closing event as its response.
  The entry is the one at the index that equals the number of entries created before the
  opening event.
\<close>

theorem opening_then_closing_paired:
  assumes "mergeEvents (pre @ [opening] @ mid @ [closing] @ post) = Inr es"
    and "is_opening opening" and "request_key opening = Some k"
    and "is_closing closing" and "response_key closing = Some k"
    and "\<forall>e \<in> set mid. response_key e \<noteq> Some k \<and> request_key e \<noteq> Some k"
  shows "\<exists>es0. mergeEvents pre = Inr es0 \<and> length es0 < length es
     \<and> request (es ! length es0) = opening \<and> response (es ! length es0) = Some closing"
proof -
  from assms(1) obtain t
    where t: "merge_loop init_state (pre @ [opening] @ mid @ [closing] @ post) = Inr t"
      "es = entries t"
    by (rule mergeEvents_loop)
  from t(1) assms(2,3,5,6) obtain s where s: "merge_loop init_state pre = Inr s"
    "length (entries s) < length (entries t)"
    "request (entries t ! length (entries s)) = opening"
    "response (entries t ! length (entries s)) = Some closing"
    by (rule pair_core)
  from s(1) have "mergeEvents pre = Inr (entries s)"
    by (simp add: mergeEvents_def)
  with s t(2) show ?thesis by simp
qed

theorem opening_then_closing_paired_witness:
  "mergeEvents ([sample_reload] @ [sample_sent] @ [sample_call] @ [sample_response] @ [sample_result])
     = Inr sample_merged
   \<and> is_opening sample_sent \<and> request_key sample_sent = Some ''prompt:a''
   \<and> is_closing sample_response \<and> response_key sample_response = Some ''prompt:a''
   \<and> response_key sample_call \<noteq> Some ''prompt:a'' \<and> request_key sample_call \<noteq> Some ''prompt:a''
   \<and> (\<exists>es0. mergeEvents [sample_reload] = Inr es0 \<and> length es0 < length sample_merged
        \<and> request (sample_merged ! length es0) = sample_sent
        \<and> response (sample_merged ! length es0) = Some sample_response)"
proof -
  have run: "mergeEvents ([sample_reload] @ [sample_sent] @ [sample_call] @ [sample_response] @ [sample_result])
     = Inr sample_merged"
    by (simp add: merge_defs sample_merged_def)
  have op: "is_opening sample_sent" "request_key sample_sent = Some ''prompt:a''"
    by (simp_all add: merge_defs key_defs)
  have cl: "is_closing sample_response" "response_key sample_response = Some ''prompt:a''"
    by (simp_all add: merge_defs key_defs)
  have mid: "response_key sample_call \<noteq> Some ''prompt:a''" "request_key sample_call \<noteq> Some ''prompt:a''"
    by (simp_all add: merge_defs key_defs)
  then have mid': "\<forall>e \<in> set [sample_call]. response_key e \<noteq> Some ''prompt:a'' \<and> request_key e \<noteq> Some ''prompt:a''"
    by simp
  have c: "\<exists>es0. mergeEvents [sample_reload] = Inr es0 \<and> length es0 < length sample_merged
        \<and> request (sample_merged ! length es0) = sample_sent
        \<and> response (sample_merged ! length es0) = Some sample_response"
    by (rule opening_then_closing_paired[OF run op cl mid'])
  show ?thesis
    by (intro conjI run op cl mid c)
qed

text \<open>
  The claim without the condition on opening events fails: a second opening event with the same
  key takes the place of the first in the pending table, and the closing event is attached to
  the second entry.
\<close>

theorem opening_then_closing_counterexample:
  "is_opening sample_sent \<and> request_key sample_sent = Some ''prompt:a''
   \<and> is_closing sample_response \<and> response_key sample_response = Some ''prompt:a''
   \<and> response_key sample_sent2 = None
   \<and> mergeEvents [sample_sent, sample_sent2, sample_response]
       = Inr [\<lparr>id = 0, request = sample_sent, response = None\<rparr>,
              \<lparr>id = 1, request = sample_sent2, response = Some sample_response\<rparr>]
   \<and> response ([\<lparr>id = 0, request = sample_sent, response = None\<rparr>,
              \<lparr>id = 1, request = sample_sent2, response = Some sample_response\<rparr>] ! 0)
       \<noteq> Some sample_response"
  by (simp add: merge_defs key_defs sample_defs2)

text \<open>
  Claim C2, as amended. When an opening event arrives while its correlation key is already
  pending, the merge creates a second, independent entry, and the pending table keeps only the
  index of that most recent entry for the key (last writer wins, there is no queue). The next
  closing event with the key is attached to the most recent entry; the entry that was pending
  before is superseded, and no later event gives it a response.
\<close>

theorem duplicate_key_last_writer_wins:
  assumes pre: "merge_loop init_state pre = Inr s"
    and pend: "pending s k = Some old"
    and op: "is_opening opening" "request_key opening = Some k"
  shows "\<exists>s'. merge_loop init_state (pre @ [opening]) = Inr s'
     \<and> entries s' = entries s @ [\<lparr>id = length (entries s), request = opening, response = None\<rparr>]
     \<and> pending s' = (pending s)(k \<mapsto> length (entries s))
     \<and> old < length (entries s)
     \<and> (\<forall>post t. merge_loop s' post = Inr t \<longrightarrow>
           entries t ! old = entries s ! old \<and> response (entries t ! old) = None)
     \<and> (\<forall>closing. response_key closing = Some k \<longrightarrow>
           (\<exists>s''. merge_step s' closing = Inr s''
              \<and> entries s'' = entries s @
                   [\<lparr>id = length (entries s), request = opening, response = Some closing\<rparr>]
              \<and> pending s'' k = None))"
proof -
  let ?n = "length (entries s)"
  let ?s' = "s\<lparr>entries := entries s @ [\<lparr>id = nextId s, request = opening, response = None\<rparr>],
            nextId := nextId s + 1,
            pending := (pending s)(k \<mapsto> ?n)\<rparr>"
  have inv: "merge_inv s" using merge_loop_inv[OF pre init_state_inv] .
  then have nid: "nextId s = ?n" by (simp add: merge_inv_def)
  have st: "merge_step s opening = Inr ?s'"
    by (rule merge_step_opening_total[OF op])
  have run: "merge_loop init_state (pre @ [opening]) = Inr ?s'"
    using pre st by (simp add: merge_loop_append)
  have old: "old < ?n" "response (entries s ! old) = None"
    using merge_inv_pending[OF inv pend] by simp_all
  have unref: "\<forall>k'. pending ?s' k' \<noteq> Some old"
  proof (intro allI notI)
    fix k' assume a: "pending ?s' k' = Some old"
    show False
    proof (cases "k' = k")
      case True
      with a old(1) show False by simp
    next
      case False
      with a have "pending s k' = Some old" by simp
      from merge_inv_pending_inj[OF inv pend this] False show False by simp
    qed
  qed
  have frame: "entries t ! old = entries s ! old \<and> response (entries t ! old) = None"
    if "merge_loop ?s' post = Inr t" for post t
  proof -
    have "old < length (entries ?s')" using old(1) by simp
    from merge_loop_frame[OF that this unref] old show ?thesis
      by (simp add: nth_append)
  qed
  have next_closing: "\<exists>s''. merge_step ?s' closing = Inr s''
              \<and> entries s'' = entries s @
                   [\<lparr>id = ?n, request = opening, response = Some closing\<rparr>]
              \<and> pending s'' k = None"
    if "response_key closing = Some k" for closing
  proof -
    have "pending ?s' k = Some ?n" "?n < length (entries ?s')" by simp_all
    from merge_step_closing_total[OF that this] nid show ?thesis by simp
  qed
  show ?thesis
    using run nid old frame next_closing
    by (intro exI[of _ ?s']) simp
qed

theorem duplicate_key_last_writer_wins_witness:
  "merge_loop init_state [sample_start1] = Inr sample_state
   \<and> pending sample_state ''stream:7'' = Some 0
   \<and> is_opening sample_start2 \<and> request_key sample_start2 = Some ''stream:7''
   \<and> (\<exists>s'. merge_loop init_state ([sample_start1] @ [sample_start2]) = Inr s'
     \<and> entries s' = entries sample_state @
          [\<lparr>id = length (entries sample_state), request = sample_start2, response = None\<rparr>]
     \<and> pending s' = (pending sample_state)(''stream:7'' \<mapsto> length (entries sample_state))
     \<and> 0 < length (entries sample_state)
     \<and> (\<forall>post t. merge_loop s' post = Inr t \<longrightarrow>
           entries t ! 0 = entries sample_state ! 0 \<and> response (entries t ! 0) = None)
     \<and> (\<forall>closing. response_key closing = Some ''stream:7'' \<longrightarrow>
           (\<exists>s''. merge_step s' closing = Inr s''
              \<and> entries s'' = entries sample_state @
                   [\<lparr>id = length (entries sample_state), request = sample_start2,
                     response = Some closing\<rparr>]
              \<and> pending s'' ''stream:7'' = None)))"
proof -
  have pre: "merge_loop init_state [sample_start1] = Inr sample_state"
    by (simp add: merge_defs sample_defs2 sample_state_def number_to_string_7)
  have pend: "pending sample_state ''stream:7'' = Some 0"
    by (simp add: sample_state_def)
  have op: "is_opening sample_start2" "request_key sample_start2 = Some ''stream:7''"
    by (simp_all add: merge_defs key_defs sample_defs2 number_to_string_7)
  show ?thesis
    by (intro conjI pre pend op duplicate_key_last_writer_wins[OF pre pend op])
qed

text \<open>
  Events with one key are not paired first-opened-first-closed: of two opening events followed
  by two closing events, the first closing event goes to the second entry, the first entry
  stays without response, and the second closing event becomes an entry of its own.
\<close>

theorem first_opened_first_closed_counterexample:
  "request_key sample_start1 = Some ''stream:7'' \<and> request_key sample_start2 = Some ''stream:7''
   \<and> response_key sample_end1 = Some ''stream:7'' \<and> response_key sample_end2 = Some ''stream:7''
   \<and> mergeEvents [sample_start1, sample_start2, sample_end1, sample_end2]
       = Inr [\<lparr>id = 0, request = sample_start1, response = None\<rparr>,
              \<lparr>id = 1, request = sample_start2, response = Some sample_end1\<rparr>,
              \<lparr>id = 2, request = sample_end2, response = None\<rparr>]
   \<and> response ([\<lparr>id = 0, request = sample_start1, response = None\<rparr>,
              \<lparr>id = 1, request = sample_start2, response = Some sample_end1\<rparr>,
              \<lparr>id = 2, request = sample_end2, response = None\<rparr>] ! 0) \<noteq> Some sample_end1"
  by (simp add: merge_defs key_defs sample_defs2 number_to_string_7)

text \<open>
  The returned sequence is never longer than the input. When no event has the name of an
  inherited member as its type, its length is the length of the input minus the number of
  closing events that were absorbed into a pending entry.
\<close>

lemma mergeEvents_length_registered:
  assumes "mergeEvents events = Inr es"
  shows "length es \<le> length events"
    and "\<forall>e \<in> set events. type e \<notin> set Object_prototype_names \<Longrightarrow>
      length es = length events - absorbed_count init_state events"
proof -
  from assms obtain t where t: "merge_loop init_state events = Inr t" "es = entries t"
    by (rule mergeEvents_loop)
  from merge_loop_length_le[OF t(1)] t(2) show "length es \<le> length events"
    by (simp add: init_state_def)
  assume "\<forall>e \<in> set events. type e \<notin> set Object_prototype_names"
  from merge_loop_length[OF t(1) this] t(2)
  have "length es + absorbed_count init_state events = length events"
    by (simp add: init_state_def)
  then show "length es = length events - absorbed_count init_state events" by arith
qed

text \<open>
  Claim C3. The sequence that \<^verbatim>\<open>mergeEvents\<close> returns is at most as long as the input, and its
  length is the length of the input minus the number of closing events that were absorbed
  into a pending entry. The lookup in the pairing tables, which are object literals, also finds
  the members inherited from \<^verbatim>\<open>Object.prototype\<close>: an event of type \<^verbatim>\<open>constructor\<close> is registered as
  pending, and a second one is absorbed into it, although it is no closing event. Of these two
  events one entry is returned, and no closing event was absorbed.
\<close>

theorem mergeEvents_length_inherited:
  "mergeEvents [sample_constructor, sample_constructor]
     = Inr [\<lparr>id = 0, request = sample_constructor, response = Some sample_constructor\<rparr>]
   \<and> \<not> is_closing sample_constructor
   \<and> absorbed_count init_state [sample_constructor, sample_constructor] = 0
   \<and> length [\<lparr>id = 0, request = sample_constructor, response = Some sample_constructor\<rparr>]
       \<noteq> length [sample_constructor, sample_constructor]
           - absorbed_count init_state [sample_constructor, sample_constructor]"
  by (simp add: merge_defs sample_constructor_def is_closing_def absorbs_def response_key_def)

text \<open>
  Claim C9, as amended. Two events that both lack a \<^verbatim>\<open>sessionId\<close> (absent or null) and, for the
  pair type "tool", have equal tool fields that \<^verbatim>\<open>String\<close> can convert, or both lack one, get
  the same correlation key for the same pair type. The merge does not fail on a stream of
  events whose key fields are missing or are values that \<^verbatim>\<open>String\<close> can convert. The key of an
  event that lacks both fields is the pair type followed by empty fields, and an opening and a
  closing event of one pair type that lack the key fields have the same key, so they meet in
  one bucket of the pending table.
\<close>

theorem missing_key_fields:
  "(\<not> not_nullish (get_prop e1 ''sessionId'') \<and> \<not> not_nullish (get_prop e2 ''sessionId'')
      \<and> (pairType = Own ''tool'' \<longrightarrow>
            (get_prop e1 ''tool'' = get_prop e2 ''tool''
             \<or> (\<not> not_nullish (get_prop e1 ''tool'') \<and> \<not> not_nullish (get_prop e2 ''tool'')))
            \<and> stringable (get_prop e1 ''tool''))
     \<longrightarrow> (\<exists>k. matchKey e1 pairType = Inr k \<and> matchKey e2 pairType = Inr k))
   \<and> ((\<forall>e \<in> set events. stringable (get_prop e ''sessionId'') \<and> stringable (get_prop e ''tool''))
     \<longrightarrow> (\<exists>es. mergeEvents events = Inr es))
   \<and> (\<not> not_nullish (get_prop e1 ''sessionId'') \<and> \<not> not_nullish (get_prop e1 ''tool'')
     \<longrightarrow> matchKey e1 pairType =
           Inr (if pairType = Own ''tool'' then ''tool::'' else member_to_string pairType @ '':''))
   \<and> (map_of REQUEST_PAIR (type e1) = Some p \<and> map_of RESPONSE_PAIR (type e2) = Some p
      \<and> \<not> not_nullish (get_prop e1 ''sessionId'') \<and> \<not> not_nullish (get_prop e2 ''sessionId'')
      \<and> \<not> not_nullish (get_prop e1 ''tool'') \<and> \<not> not_nullish (get_prop e2 ''tool'')
     \<longrightarrow> request_key e1 = response_key e2 \<and> (\<exists>k. request_key e1 = Some k))"
proof (intro conjI impI)
  assume a: "\<not> not_nullish (get_prop e1 ''sessionId'') \<and> \<not> not_nullish (get_prop e2 ''sessionId'')
      \<and> (pairType = Own ''tool'' \<longrightarrow>
            (get_prop e1 ''tool'' = get_prop e2 ''tool''
             \<or> (\<not> not_nullish (get_prop e1 ''tool'') \<and> \<not> not_nullish (get_prop e2 ''tool'')))
            \<and> stringable (get_prop e1 ''tool''))"
  show "\<exists>k. matchKey e1 pairType = Inr k \<and> matchKey e2 pairType = Inr k"
  proof (cases "pairType = Own ''tool''")
    case True
    with a have eq: "nullish_or (get_prop e1 ''tool'') (JStr []) = nullish_or (get_prop e2 ''tool'') (JStr [])"
      by (auto simp: not_nullish_def nullish_or_def)
    from True a obtain str where "js_String (nullish_or (get_prop e1 ''tool'') (JStr [])) = Inr str"
      using stringable_Inr by blast
    with eq a True show ?thesis
      by (simp add: matchKey_missing_session)
  next
    case False
    with a show ?thesis by (simp add: matchKey_missing_session)
  qed
next
  assume "\<forall>e \<in> set events. stringable (get_prop e ''sessionId'') \<and> stringable (get_prop e ''tool'')"
  then show "\<exists>es. mergeEvents events = Inr es"
    by (rule mergeEvents_total)
next
  assume "\<not> not_nullish (get_prop e1 ''sessionId'') \<and> \<not> not_nullish (get_prop e1 ''tool'')"
  then show "matchKey e1 pairType =
           Inr (if pairType = Own ''tool'' then ''tool::'' else member_to_string pairType @ '':'')"
    by (auto simp: matchKey_missing_session not_nullish_def nullish_or_def)
next
  assume a: "map_of REQUEST_PAIR (type e1) = Some p \<and> map_of RESPONSE_PAIR (type e2) = Some p
      \<and> \<not> not_nullish (get_prop e1 ''sessionId'') \<and> \<not> not_nullish (get_prop e2 ''sessionId'')
      \<and> \<not> not_nullish (get_prop e1 ''tool'') \<and> \<not> not_nullish (get_prop e2 ''tool'')"
  then have k: "matchKey e1 (Own p) = Inr (if p = ''tool'' then ''tool::'' else p @ '':'')"
    "matchKey e2 (Own p) = Inr (if p = ''tool'' then ''tool::'' else p @ '':'')"
    by (auto simp: matchKey_missing_session not_nullish_def nullish_or_def member_to_string_def)
  from a have t: "table_get REQUEST_PAIR (type e1) = Some (Own p)"
    "table_get RESPONSE_PAIR (type e2) = Some (Own p)"
    by (simp_all add: table_get_def)
  show "request_key e1 = response_key e2"
    by (simp add: request_key_def response_key_def t k)
  show "\<exists>k. request_key e1 = Some k"
    by (simp add: request_key_def t k)
qed

theorem missing_key_fields_witness:
  "\<not> not_nullish (get_prop sample_anon_call ''sessionId'')
   \<and> \<not> not_nullish (get_prop sample_anon_result ''sessionId'')
   \<and> get_prop sample_anon_call ''tool'' = get_prop sample_anon_result ''tool''
   \<and> stringable (get_prop sample_anon_call ''tool'')
   \<and> (\<exists>k. matchKey sample_anon_call (Own ''tool'') = Inr k
          \<and> matchKey sample_anon_result (Own ''tool'') = Inr k)
   \<and> matchKey sample_anon_call (Own ''tool'') = Inr ''tool::search''
   \<and> stringable (get_prop sample_anon_call ''sessionId'')
   \<and> stringable (get_prop sample_anon_result ''sessionId'')
   \<and> stringable (get_prop sample_anon_result ''tool'')
   \<and> (\<exists>es. mergeEvents [sample_anon_call, sample_anon_result] = Inr es)
   \<and> mergeEvents [sample_anon_call, sample_anon_result]
       = Inr [\<lparr>id = 0, request = sample_anon_call, response = Some sample_anon_result\<rparr>]
   \<and> \<not> not_nullish (get_prop sample_bare_sent ''sessionId'')
   \<and> \<not> not_nullish (get_prop sample_bare_sent ''tool'')
   \<and> matchKey sample_bare_sent (Own ''prompt'') = Inr ''prompt:''
   \<and> \<not> not_nullish (get_prop sample_bare_error ''sessionId'')
   \<and> \<not> not_nullish (get_prop sample_bare_error ''tool'')
   \<and> map_of REQUEST_PAIR (type sample_bare_sent) = Some ''prompt''
   \<and> map_of RESPONSE_PAIR (type sample_bare_error) = Some ''prompt''
   \<and> request_key sample_bare_sent = response_key sample_bare_error
   \<and> request_key sample_bare_sent = Some ''prompt:''"
proof -
  have h1: "\<not> not_nullish (get_prop sample_anon_call ''sessionId'')"
    "\<not> not_nullish (get_prop sample_anon_result ''sessionId'')"
    "get_prop sample_anon_call ''tool'' = get_prop sample_anon_result ''tool''"
    "stringable (get_prop sample_anon_call ''tool'')"
    by (simp_all add: sample_anon_call_def sample_anon_result_def get_prop_def not_nullish_def
        stringable_def nullish_or_def)
  have s1: "stringable (get_prop sample_anon_call ''sessionId'')"
    "stringable (get_prop sample_anon_result ''sessionId'')"
    "stringable (get_prop sample_anon_result ''tool'')"
    by (simp_all add: sample_anon_call_def sample_anon_result_def get_prop_def
        stringable_def nullish_or_def)
  have h2: "\<not> not_nullish (get_prop sample_bare_sent ''sessionId'')"
    "\<not> not_nullish (get_prop sample_bare_sent ''tool'')"
    "\<not> not_nullish (get_prop sample_bare_error ''sessionId'')"
    "\<not> not_nullish (get_prop sample_bare_error ''tool'')"
    by (simp_all add: sample_bare_sent_def sample_bare_error_def get_prop_def not_nullish_def)
  have h3: "map_of REQUEST_PAIR (type sample_bare_sent) = Some ''prompt''"
    "map_of RESPONSE_PAIR (type sample_bare_error) = Some ''prompt''"
    by (simp_all add: sample_bare_sent_def sample_bare_error_def REQUEST_PAIR_def RESPONSE_PAIR_def)
  note res = missing_key_fields[of sample_anon_call sample_anon_result "Own ''tool''"
      "[sample_anon_call, sample_anon_result]"]
  note res2 = missing_key_fields[of sample_bare_sent sample_bare_error "Own ''prompt''" "[]"
      "''prompt''"]
  have c1: "\<exists>k. matchKey sample_anon_call (Own ''tool'') = Inr k
          \<and> matchKey sample_anon_result (Own ''tool'') = Inr k"
    using conjunct1[OF res] h1 by simp
  have c1': "matchKey sample_anon_call (Own ''tool'') = Inr ''tool::search''"
    by (simp add: sample_anon_call_def matchKey_def get_prop_def nullish_or_def)
  have c3: "\<exists>es. mergeEvents [sample_anon_call, sample_anon_result] = Inr es"
    using conjunct1[OF conjunct2[OF res]] h1(4) s1 by simp
  have c4: "mergeEvents [sample_anon_call, sample_anon_result]
       = Inr [\<lparr>id = 0, request = sample_anon_call, response = Some sample_anon_result\<rparr>]"
    by (simp add: merge_defs sample_anon_call_def sample_anon_result_def)
  have c2: "matchKey sample_bare_sent (Own ''prompt'') = Inr ''prompt:''"
    using conjunct1[OF conjunct2[OF conjunct2[OF res2]]] h2 by (simp add: member_to_string_def)
  have c5: "request_key sample_bare_sent = response_key sample_bare_error"
    using conjunct2[OF conjunct2[OF conjunct2[OF res2]]] h2 h3 by simp
  have c6: "request_key sample_bare_sent = Some ''prompt:''"
    by (simp add: request_key_def table_get_def h3 c2)
  show ?thesis
    by (intro conjI h1 s1 h2 h3 c1 c1' c2 c3 c4 c5 c6)
qed

text \<open>
  Without the condition on the conversion the claim fails: a tool call and a tool result that
  lack a \<^verbatim>\<open>sessionId\<close> and have equal tool fields, an object with an own property \<^verbatim>\<open>toString\<close>, get
  no key, because \<^verbatim>\<open>String\<close> throws a TypeError, and the merge of the call fails with it.
\<close>

theorem missing_key_fields_counterexample:
  "\<not> not_nullish (get_prop sample_odd_call ''sessionId'')
   \<and> \<not> not_nullish (get_prop sample_odd_result ''sessionId'')
   \<and> get_prop sample_odd_call ''tool'' = get_prop sample_odd_result ''tool''
   \<and> matchKey sample_odd_call (Own ''tool'') = Inl TypeError
   \<and> matchKey sample_odd_result (Own ''tool'') = Inl TypeError
   \<and> mergeEvents [sample_odd_call] = Inl TypeError"
  by (simp add: merge_defs sample_odd_call_def sample_odd_result_def not_nullish_def)

text \<open>
  Claim C10. The ids of the entries that \<^verbatim>\<open>mergeEvents\<close> returns are 0, 1, 2, ... without gaps:
  the id of every entry is its index in the returned sequence, also when closing events
  were absorbed without creating an entry.
\<close>

theorem mergeEvents_ids:
  assumes "mergeEvents events = Inr es"
  shows "(\<forall>i < length es. MergedEntry.id (es ! i) = i) \<and> map MergedEntry.id es = [0..<length es]"
proof -
  from assms obtain t where t: "es = entries t" "merge_inv t"
    by (rule mergeEvents_loop)
  then have ids: "\<forall>i < length es. MergedEntry.id (es ! i) = i"
    by (simp add: merge_inv_def)
  then have "map MergedEntry.id es = [0..<length es]"
    by (intro nth_equalityI) simp_all
  with ids show ?thesis by simp
qed

theorem mergeEvents_ids_witness:
  "mergeEvents [sample_sent, sample_reload, sample_response] =
     Inr [\<lparr>id = 0, request = sample_sent, response = Some sample_response\<rparr>,
          \<lparr>id = 1, request = sample_reload, response = None\<rparr>]
   \<and> map MergedEntry.id [\<lparr>id = 0, request = sample_sent, response = Some sample_response\<rparr>,
          \<lparr>id = 1, request = sample_reload, response = None\<rparr>] = [0, 1]"
proof -
  have run: "mergeEvents [sample_sent, sample_reload, sample_response] =
     Inr [\<lparr>id = 0, request = sample_sent, response = Some sample_response\<rparr>,
          \<lparr>id = 1, request = sample_reload, response = None\<rparr>]"
    by (simp add: merge_defs)
  from mergeEvents_ids[OF run] run show ?thesis by simp
qed

section \<open>Properties of the entry projection\<close>

lemma unanswered_entry:
  assumes "is_opening (request e)" "response e = None"
  shows "getEntryStatus e = \<lparr>label = ''pending'', color = ''#ff9800''\<rparr>" "isEntryFailed e"
proof -
  from assms(1) obtain p where "map_of REQUEST_PAIR (type (request e)) = Some p"
    by (auto simp: is_opening_def)
  then have t: "table_get REQUEST_PAIR (type (request e)) = Some (Own p)"
    by (simp add: table_get_def)
  show "getEntryStatus e = \<lparr>label = ''pending'', color = ''#ff9800''\<rparr>"
    using t assms(2) by (simp add: getEntryStatus_def)
  show "isEntryFailed e"
    using t assms(2) by (simp add: isEntryFailed_def)
qed

text \<open>
  Claim C4. When an opening event has no subsequent closing event with its key, the entry created
  for it ends the merge without a response, \<^verbatim>\<open>getEntryStatus\<close> gives it the label "pending" and
  \<^verbatim>\<open>isEntryFailed\<close> is true for it. The same holds of every returned entry whose request is an
  opening event and which has no response.
\<close>

theorem unanswered_opening_event:
  assumes "mergeEvents (pre @ [opening] @ post) = Inr es"
    and "is_opening opening"
    and "\<forall>e \<in> set post. response_key e \<noteq> request_key opening"
  shows "(\<exists>es0. mergeEvents pre = Inr es0 \<and> length es0 < length es
       \<and> request (es ! length es0) = opening \<and> response (es ! length es0) = None
       \<and> label (getEntryStatus (es ! length es0)) = ''pending''
       \<and> isEntryFailed (es ! length es0))
     \<and> (\<forall>e \<in> set es. is_opening (request e) \<and> response e = None \<longrightarrow>
          label (getEntryStatus e) = ''pending'' \<and> isEntryFailed e)"
proof -
  from assms(1) obtain t
    where t: "merge_loop init_state (pre @ [opening] @ post) = Inr t" "es = entries t"
    by (rule mergeEvents_loop)
  from t(1) assms(2,3) obtain s where s: "merge_loop init_state pre = Inr s"
    "length (entries s) < length (entries t)"
    "request (entries t ! length (entries s)) = opening"
    "response (entries t ! length (entries s)) = None"
    by (rule unanswered_core)
  from s(1) have pre: "mergeEvents pre = Inr (entries s)"
    by (simp add: mergeEvents_def)
  have "is_opening (request (es ! length (entries s)))"
    using s(3) t(2) assms(2) by simp
  from unanswered_entry[OF this] s(4) t(2)
  have "label (getEntryStatus (es ! length (entries s))) = ''pending''"
    "isEntryFailed (es ! length (entries s))"
    by simp_all
  with pre s t(2) have first: "\<exists>es0. mergeEvents pre = Inr es0 \<and> length es0 < length es
       \<and> request (es ! length es0) = opening \<and> response (es ! length es0) = None
       \<and> label (getEntryStatus (es ! length es0)) = ''pending''
       \<and> isEntryFailed (es ! length es0)"
    by simp
  have "\<forall>e \<in> set es. is_opening (request e) \<and> response e = None \<longrightarrow>
          label (getEntryStatus e) = ''pending'' \<and> isEntryFailed e"
    using unanswered_entry by simp
  with first show ?thesis by (rule conjI)
qed

theorem unanswered_opening_event_witness:
  "mergeEvents ([sample_reload] @ [sample_call] @ [sample_sent, sample_response]) = Inr sample_pending
   \<and> is_opening sample_call
   \<and> response_key sample_sent \<noteq> request_key sample_call
   \<and> response_key sample_response \<noteq> request_key sample_call
   \<and> (\<exists>es0. mergeEvents [sample_reload] = Inr es0 \<and> length es0 < length sample_pending
       \<and> request (sample_pending ! length es0) = sample_call
       \<and> response (sample_pending ! length es0) = None
       \<and> label (getEntryStatus (sample_pending ! length es0)) = ''pending''
       \<and> isEntryFailed (sample_pending ! length es0))
   \<and> label (getEntryStatus \<lparr>id = 1, request = sample_call, response = None\<rparr>) = ''pending''
   \<and> isEntryFailed \<lparr>id = 1, request = sample_call, response = None\<rparr>"
proof -
  have run: "mergeEvents ([sample_reload] @ [sample_call] @ [sample_sent, sample_response])
      = Inr sample_pending"
    by (simp add: merge_defs sample_pending_def)
  have op: "is_opening sample_call"
    by (simp add: merge_defs key_defs)
  have post: "response_key sample_sent \<noteq> request_key sample_call"
    "response_key sample_response \<noteq> request_key sample_call"
    by (simp_all add: merge_defs key_defs)
  then have post': "\<forall>e \<in> set [sample_sent, sample_response]. response_key e \<noteq> request_key sample_call"
    by simp
  note res = unanswered_opening_event[OF run op post']
  have c: "\<exists>es0. mergeEvents [sample_reload] = Inr es0 \<and> length es0 < length sample_pending
       \<and> request (sample_pending ! length es0) = sample_call
       \<and> response (sample_pending ! length es0) = None
       \<and> label (getEntryStatus (sample_pending ! length es0)) = ''pending''
       \<and> isEntryFailed (sample_pending ! length es0)"
    by (rule conjunct1[OF res])
  have mem: "\<lparr>id = 1, request = sample_call, response = None\<rparr> \<in> set sample_pending"
    by (simp add: sample_pending_def)
  have d: "label (getEntryStatus \<lparr>id = 1, request = sample_call, response = None\<rparr>) = ''pending''"
    "isEntryFailed \<lparr>id = 1, request = sample_call, response = None\<rparr>"
    using conjunct2[OF res] mem op by auto
  show ?thesis
    by (intro conjI run op post c d)
qed





text \<open>
  Claim C6. \<^verbatim>\<open>jsonLen\<close> takes the \<^verbatim>\<open>length\<close> of the serialized string, which counts UTF-16 code
  units. For a request whose only field is \<^verbatim>\<open>input\<close> with the one-letter value U+00E9 the
  serialization has 14 bytes, and \<^verbatim>\<open>getEntrySize\<close> reports 13.
\<close>

theorem getEntrySize_non_ascii:
  "getEntrySize \<lparr>id = 0, request = sample_accent, response = None\<rparr> = ''13 B''
   \<and> utf8_size (JSON_stringify (JObj (rest sample_accent))) = 14"
  by (simp add: getEntrySize_def jsonLen_def sample_accent_def quote_def quote_char_def
      js_length_def code_units_def utf8_size_def dec.simps digit_char_def Let_def)

end
